theory Spec2Isabelle
  imports Main "HOL-Library.Word"
begin

section \<open>The dedicated-thread ptrace proxy of program/server/ptrace.go\<close>

text \<open>
  The file \<^verbatim>\<open>ptrace.go\<close> has two layers. \<^verbatim>\<open>ptraceRun\<close> is the executor: it
  checks that its two channels are unbuffered, locks its goroutine to an OS thread and
  then, for every closure received on \<^verbatim>\<open>fc\<close>, sends the closure's result on
  \<^verbatim>\<open>ec\<close>. The methods of \<^verbatim>\<open>Server\<close> are the operations: each sends one closure
  around one primitive of the packages \<^verbatim>\<open>os\<close> and \<^verbatim>\<open>syscall\<close> on
  \<^verbatim>\<open>s.fc\<close> and returns what it receives on \<^verbatim>\<open>s.ec\<close>.
\<close>

subsection \<open>Data\<close>

text \<open>
  Go's \<^verbatim>\<open>int\<close> is modelled by \<^typ>\<open>int\<close>: the code compares and prints such
  values but never does arithmetic on them. \<^verbatim>\<open>uintptr\<close>, \<^verbatim>\<open>byte\<close> and
  \<^verbatim>\<open>syscall.WaitStatus\<close> (a \<^verbatim>\<open>uint32\<close>) are words. The register file
  \<^verbatim>\<open>syscall.PtraceRegs\<close> is a struct of \<^verbatim>\<open>uint64\<close> fields, kept as the list of
  its fields. The core moves all of these and never looks inside.
\<close>

type_synonym uintptr = "64 word"
type_synonym byte = "8 word"
type_synonym WaitStatus = "32 word"
type_synonym PtraceRegs = "64 word list"

record ProcAttr =
  Dir :: string
  Env :: "string list"
  Ptrace :: bool

record Process =
  Pid :: int

text \<open>
  A value of the interface \<^verbatim>\<open>error\<close>: an error number of the kernel
  (\<^verbatim>\<open>syscall.Errno\<close>), the \<^verbatim>\<open>*os.PathError\<close> of a failed launch (operation, path,
  error number), or the string error that \<^verbatim>\<open>fmt.Errorf\<close> builds. The Go value
  \<^verbatim>\<open>nil\<close> is \<^term>\<open>None\<close> of \<open>error option\<close>.
\<close>

datatype error = Errno nat | PathError string string nat | ErrorString string

subsection \<open>Formatting with the verb d\<close>

text \<open>
  \<^verbatim>\<open>fmt.Errorf\<close> prints an \<^verbatim>\<open>int\<close> under the verb \<^verbatim>\<open>%d\<close> in decimal, with a
  leading minus sign for a negative value and no padding.
\<close>

fun decimal :: "nat \<Rightarrow> string" where
  "decimal n = (if n < 10 then [''0123456789'' ! n]
                else decimal (n div 10) @ [''0123456789'' ! (n mod 10)])"

declare decimal.simps [simp del]

definition fmt_d :: "int \<Rightarrow> string" where
  "fmt_d i = (if i < 0 then CHR ''-'' # decimal (nat (- i)) else decimal (nat i))"

subsection \<open>The primitives of the operating system\<close>

text \<open>
  The primitives belong to Go's standard library and to the kernel, so they are a
  parameter: a record of functions over a kernel state \<open>'k\<close> of any type. A primitive
  that writes through a pointer (\<^verbatim>\<open>regsout\<close>, \<^verbatim>\<open>&status\<close>) takes the old
  contents and returns the new ones. The peek primitive is given the length of
  \<^verbatim>\<open>out\<close> and returns the bytes it read, which are copied into \<^verbatim>\<open>out\<close>, with
  the count and the error it reports.
\<close>

record 'k OS =
  sys_StartProcess :: "string \<Rightarrow> string list \<Rightarrow> ProcAttr \<Rightarrow> 'k \<Rightarrow> (Process option \<times> error option) \<times> 'k"
  sys_PtraceCont :: "int \<Rightarrow> int \<Rightarrow> 'k \<Rightarrow> error option \<times> 'k"
  sys_PtraceGetRegs :: "int \<Rightarrow> PtraceRegs \<Rightarrow> 'k \<Rightarrow> (PtraceRegs \<times> error option) \<times> 'k"
  sys_PtracePeekText :: "int \<Rightarrow> uintptr \<Rightarrow> nat \<Rightarrow> 'k \<Rightarrow> (byte list \<times> int \<times> error option) \<times> 'k"
  sys_PtracePokeText :: "int \<Rightarrow> uintptr \<Rightarrow> byte list \<Rightarrow> 'k \<Rightarrow> (int \<times> error option) \<times> 'k"
  sys_PtraceSetOptions :: "int \<Rightarrow> int \<Rightarrow> 'k \<Rightarrow> error option \<times> 'k"
  sys_PtraceSetRegs :: "int \<Rightarrow> PtraceRegs \<Rightarrow> 'k \<Rightarrow> error option \<times> 'k"
  sys_PtraceSingleStep :: "int \<Rightarrow> 'k \<Rightarrow> error option \<times> 'k"
  sys_Wait4 :: "int \<Rightarrow> WaitStatus \<Rightarrow> int \<Rightarrow> 'k \<Rightarrow> (int \<times> WaitStatus \<times> error option) \<times> 'k"

text \<open>
  The world the code runs in: the kernel state and the log of the primitive calls made
  so far, each with the arguments the code passed. The log is what "invoked exactly
  once" and "with the flag" are stated on.
\<close>

datatype call =
    Call_StartProcess string "string list" ProcAttr
  | Call_PtraceCont int int
  | Call_PtraceGetRegs int
  | Call_PtracePeekText int uintptr nat
  | Call_PtracePokeText int uintptr "byte list"
  | Call_PtraceSetOptions int int
  | Call_PtraceSetRegs int PtraceRegs
  | Call_PtraceSingleStep int
  | Call_Wait4 int int

record 'k world =
  kernel :: 'k
  calls :: "call list"

text \<open>
  Go's \<^verbatim>\<open>copy(dst, src)\<close>: a slice keeps its length whatever is written into it.
\<close>

definition copy :: "'a list \<Rightarrow> 'a list \<Rightarrow> 'a list" where
  "copy dst src = take (length dst) src @ drop (length src) dst"

definition invoke :: "call \<Rightarrow> ('k \<Rightarrow> 'r \<times> 'k) \<Rightarrow> 'k world \<Rightarrow> 'r \<times> 'k world" where
  "invoke c prim w =
     (case prim (kernel w) of (r, k') \<Rightarrow> (r, \<lparr>kernel = k', calls = calls w @ [c]\<rparr>))"

definition os_StartProcess ::
  "'k OS \<Rightarrow> string \<Rightarrow> string list \<Rightarrow> ProcAttr \<Rightarrow> 'k world \<Rightarrow> (Process option \<times> error option) \<times> 'k world" where
  "os_StartProcess os name argv attr =
     invoke (Call_StartProcess name argv attr) (sys_StartProcess os name argv attr)"

definition syscall_PtraceCont :: "'k OS \<Rightarrow> int \<Rightarrow> int \<Rightarrow> 'k world \<Rightarrow> error option \<times> 'k world" where
  "syscall_PtraceCont os pid signal = invoke (Call_PtraceCont pid signal) (sys_PtraceCont os pid signal)"

definition syscall_PtraceGetRegs ::
  "'k OS \<Rightarrow> int \<Rightarrow> PtraceRegs \<Rightarrow> 'k world \<Rightarrow> (PtraceRegs \<times> error option) \<times> 'k world" where
  "syscall_PtraceGetRegs os pid regsout = invoke (Call_PtraceGetRegs pid) (sys_PtraceGetRegs os pid regsout)"

definition syscall_PtracePeekText ::
  "'k OS \<Rightarrow> int \<Rightarrow> uintptr \<Rightarrow> byte list \<Rightarrow> 'k world \<Rightarrow> (byte list \<times> int \<times> error option) \<times> 'k world" where
  "syscall_PtracePeekText os pid addr out w =
     (case invoke (Call_PtracePeekText pid addr (length out)) (sys_PtracePeekText os pid addr (length out)) w of
        ((bs, n, err), w') \<Rightarrow> ((copy out bs, n, err), w'))"

definition syscall_PtracePokeText ::
  "'k OS \<Rightarrow> int \<Rightarrow> uintptr \<Rightarrow> byte list \<Rightarrow> 'k world \<Rightarrow> (int \<times> error option) \<times> 'k world" where
  "syscall_PtracePokeText os pid addr data =
     invoke (Call_PtracePokeText pid addr data) (sys_PtracePokeText os pid addr data)"

definition syscall_PtraceSetOptions :: "'k OS \<Rightarrow> int \<Rightarrow> int \<Rightarrow> 'k world \<Rightarrow> error option \<times> 'k world" where
  "syscall_PtraceSetOptions os pid options =
     invoke (Call_PtraceSetOptions pid options) (sys_PtraceSetOptions os pid options)"

definition syscall_PtraceSetRegs :: "'k OS \<Rightarrow> int \<Rightarrow> PtraceRegs \<Rightarrow> 'k world \<Rightarrow> error option \<times> 'k world" where
  "syscall_PtraceSetRegs os pid regs = invoke (Call_PtraceSetRegs pid regs) (sys_PtraceSetRegs os pid regs)"

definition syscall_PtraceSingleStep :: "'k OS \<Rightarrow> int \<Rightarrow> 'k world \<Rightarrow> error option \<times> 'k world" where
  "syscall_PtraceSingleStep os pid = invoke (Call_PtraceSingleStep pid) (sys_PtraceSingleStep os pid)"

definition syscall_Wait4 ::
  "'k OS \<Rightarrow> int \<Rightarrow> WaitStatus \<Rightarrow> int \<Rightarrow> 'k world \<Rightarrow> (int \<times> WaitStatus \<times> error option) \<times> 'k world" where
  "syscall_Wait4 os pid status options = invoke (Call_Wait4 pid options) (sys_Wait4 os pid status options)"

text \<open>\<^verbatim>\<open>syscall.WALL\<close>, the flag \<^verbatim>\<open>__WALL\<close> of Linux.\<close>

definition WALL :: int where
  "WALL = 0x40000000"


subsection \<open>The executor\<close>

text \<open>
  A closure of type \<^verbatim>\<open>func() error\<close> reads and writes the variables it captured
  and the world: a function from a state to its result and the new state. The closures
  sent by this file wrap one primitive each and do not panic.
\<close>

type_synonym 's closure = "'s \<Rightarrow> error option \<times> 's"

text \<open>
  What the executor will receive on \<^verbatim>\<open>fc\<close>: a closure and the rest, or the close of
  the channel. The type is coinductive, so a channel that is never closed and delivers
  closures for ever is a value of it.
\<close>

codatatype 'a feed = Closed | Recv 'a "'a feed"

primrec feed_of :: "'a list \<Rightarrow> 'a feed \<Rightarrow> 'a feed" where
  "feed_of [] rest = rest"
| "feed_of (f # fs) rest = Recv f (feed_of fs rest)"

text \<open>
  The state of the executor's goroutine: whether it is locked to its OS thread, the
  values it has sent on \<^verbatim>\<open>ec\<close>, oldest first, and the state the closures act on.
\<close>

record 's executor =
  lockedOSThread :: bool
  sent :: "error option list"
  store :: 's

definition LockOSThread :: "'s executor \<Rightarrow> 's executor" where
  "LockOSThread x = x\<lparr>lockedOSThread := True\<rparr>"

text \<open>The loop body \<^verbatim>\<open>ec <- f()\<close>: run the closure, send its result.\<close>

definition serve :: "'s closure \<Rightarrow> 's executor \<Rightarrow> 's executor" where
  "serve f x = (case f (store x) of (r, s') \<Rightarrow> x\<lparr>sent := sent x @ [r], store := s'\<rparr>)"

text \<open>
  \<^verbatim>\<open>for f := range fc { ec <- f() }\<close>. The loop ends when the channel is closed and
  runs for ever otherwise, so it is a partial function: \<^term>\<open>None\<close> is "does not
  return". Every caller in this file receives from \<^verbatim>\<open>ec\<close> right after its send
  on \<^verbatim>\<open>fc\<close>, so the executor's send on \<^verbatim>\<open>ec\<close> is taken to complete.
\<close>

partial_function (option) range_loop :: "'s closure feed \<Rightarrow> 's executor \<Rightarrow> 's executor option" where
  "range_loop fc x = (case fc of Closed \<Rightarrow> Some x | Recv f fc' \<Rightarrow> range_loop fc' (serve f x))"

datatype 's outcome = Panic string | Return "'s executor"

definition ptraceRun :: "nat \<Rightarrow> nat \<Rightarrow> 's closure feed \<Rightarrow> 's executor \<Rightarrow> 's outcome option" where
  "ptraceRun cap_fc cap_ec fc x =
     (if cap_fc \<noteq> 0 \<or> cap_ec \<noteq> 0 then Some (Panic ''ptraceRun was given unbuffered channels'')
      else map_option Return (range_loop fc (LockOSThread x)))"

text \<open>The goroutine as it starts: not locked, nothing sent.\<close>

definition start :: "'s \<Rightarrow> 's executor" where
  "start s = \<lparr>lockedOSThread = False, sent = [], store = s\<rparr>"

subsection \<open>The operations\<close>

text \<open>
  Every method has the shape \<^verbatim>\<open>s.fc <- f; return <-s.ec\<close>. Seen from the caller, with
  the executor running on the other side of the two unbuffered channels, this is one
  turn of the executor's loop on \<^verbatim>\<open>f\<close>: the value received is the one \<^term>\<open>serve\<close>
  sent last. The named results that a closure assigns (\<^verbatim>\<open>proc\<close>, \<^verbatim>\<open>wpid\<close>,
  \<^verbatim>\<open>status\<close>) are read after the receive, as the gc compiler orders the operands of
  \<^verbatim>\<open>return proc, <-s.ec\<close>.
\<close>

definition roundtrip :: "'s closure \<Rightarrow> 's \<Rightarrow> error option \<times> 's" where
  "roundtrip f s = (let x = serve f (start s) in (last (sent x), store x))"

definition startProcess ::
  "'k OS \<Rightarrow> string \<Rightarrow> string list \<Rightarrow> ProcAttr \<Rightarrow> 'k world \<Rightarrow> (Process option \<times> error option) \<times> 'k world" where
  "startProcess os name argv attr w =
     (case roundtrip
        (\<lambda>(proc, w). case os_StartProcess os name argv attr w of
           ((proc', err1), w') \<Rightarrow> (err1, (proc', w')))
        (None, w)
      of (err, (proc, w')) \<Rightarrow> ((proc, err), w'))"

definition ptraceCont :: "'k OS \<Rightarrow> int \<Rightarrow> int \<Rightarrow> 'k world \<Rightarrow> error option \<times> 'k world" where
  "ptraceCont os pid signal w = roundtrip (\<lambda>w. syscall_PtraceCont os pid signal w) w"

definition ptraceGetRegs ::
  "'k OS \<Rightarrow> int \<Rightarrow> PtraceRegs \<Rightarrow> 'k world \<Rightarrow> (PtraceRegs \<times> error option) \<times> 'k world" where
  "ptraceGetRegs os pid regsout w =
     (case roundtrip
        (\<lambda>(regsout, w). case syscall_PtraceGetRegs os pid regsout w of
           ((regsout', err), w') \<Rightarrow> (err, (regsout', w')))
        (regsout, w)
      of (err, (regsout', w')) \<Rightarrow> ((regsout', err), w'))"

definition ptracePeek ::
  "'k OS \<Rightarrow> int \<Rightarrow> uintptr \<Rightarrow> byte list \<Rightarrow> 'k world \<Rightarrow> (byte list \<times> error option) \<times> 'k world" where
  "ptracePeek os pid addr out w =
     (case roundtrip
        (\<lambda>(out, w). case syscall_PtracePeekText os pid addr out w of
           ((out', n, err), w') \<Rightarrow>
             (if err \<noteq> None then (err, (out', w'))
              else if n \<noteq> int (length out') then
                (Some (ErrorString (''ptracePeek: peeked '' @ fmt_d n @ '' bytes, want ''
                                     @ fmt_d (int (length out')))),
                 (out', w'))
              else (None, (out', w'))))
        (out, w)
      of (err, (out', w')) \<Rightarrow> ((out', err), w'))"

definition ptracePoke ::
  "'k OS \<Rightarrow> int \<Rightarrow> uintptr \<Rightarrow> byte list \<Rightarrow> 'k world \<Rightarrow> error option \<times> 'k world" where
  "ptracePoke os pid addr data w =
     roundtrip
       (\<lambda>w. case syscall_PtracePokeText os pid addr data w of
          ((n, err), w') \<Rightarrow>
            (if err \<noteq> None then (err, w')
             else if n \<noteq> int (length data) then
               (Some (ErrorString (''ptracePoke: poked '' @ fmt_d n @ '' bytes, want ''
                                    @ fmt_d (int (length data)))),
                w')
             else (None, w')))
       w"

definition ptraceSetOptions :: "'k OS \<Rightarrow> int \<Rightarrow> int \<Rightarrow> 'k world \<Rightarrow> error option \<times> 'k world" where
  "ptraceSetOptions os pid options w = roundtrip (\<lambda>w. syscall_PtraceSetOptions os pid options w) w"

definition ptraceSetRegs :: "'k OS \<Rightarrow> int \<Rightarrow> PtraceRegs \<Rightarrow> 'k world \<Rightarrow> error option \<times> 'k world" where
  "ptraceSetRegs os pid regs w = roundtrip (\<lambda>w. syscall_PtraceSetRegs os pid regs w) w"

definition ptraceSingleStep :: "'k OS \<Rightarrow> int \<Rightarrow> 'k world \<Rightarrow> error option \<times> 'k world" where
  "ptraceSingleStep os pid w = roundtrip (\<lambda>w. syscall_PtraceSingleStep os pid w) w"

definition wait ::
  "'k OS \<Rightarrow> int \<Rightarrow> 'k world \<Rightarrow> (int \<times> WaitStatus \<times> error option) \<times> 'k world" where
  "wait os pid w =
     (case roundtrip
        (\<lambda>(wpid, status, w). case syscall_Wait4 os pid status WALL w of
           ((wpid', status', err1), w') \<Rightarrow> (err1, (wpid', status', w')))
        (0, 0, w)
      of (err, (wpid, status, w')) \<Rightarrow> ((wpid, status, err), w'))"

subsection \<open>What the executor's outputs are compared with\<close>

text \<open>
  Running the closures of a list one after the other, each on the state the one before
  left: the state at the end, and the list of the values they return.
\<close>

fun run_closures :: "'s closure list \<Rightarrow> 's \<Rightarrow> 's" where
  "run_closures [] s = s"
| "run_closures (f # fs) s = run_closures fs (snd (f s))"

fun results :: "'s closure list \<Rightarrow> 's \<Rightarrow> error option list" where
  "results [] s = []"
| "results (f # fs) s = fst (f s) # results fs (snd (f s))"

text \<open>A feed that is closed after finitely many closures.\<close>

inductive closes :: "'a feed \<Rightarrow> bool" where
  closes_Closed: "closes Closed"
| closes_Recv: "closes fc \<Longrightarrow> closes (Recv f fc)"

subsection \<open>Many callers: the interleavings of one session\<close>

text \<open>
  One goroutine runs \<^verbatim>\<open>ptraceRun\<close> on the unbuffered channels \<^verbatim>\<open>fc\<close> and
  \<^verbatim>\<open>ec\<close> (its check has passed, it stands at \<^verbatim>\<open>range fc\<close>); any number of
  client goroutines call the methods of the same \<^verbatim>\<open>Server\<close>. A client is the list
  of closures its calls will send, the place it stands at (blocked in
  \<^verbatim>\<open>s.fc <- f\<close>, or in \<^verbatim>\<open><-s.ec\<close>) and the values its calls have returned.
\<close>

datatype cpc = SendFc | RecvEc

record 's client =
  cpc :: cpc
  todo :: "'s closure list"
  got :: "error option list"

text \<open>
  The executor stands at \<^verbatim>\<open>range fc\<close>, is inside the call \<^verbatim>\<open>f()\<close>, or is blocked
  in \<^verbatim>\<open>ec <- r\<close>.
\<close>

datatype 's wpc = RangeFc | Calling "'s closure" | SendEc "error option"

text \<open>
  What can be observed of a session: client \<open>i\<close>'s closure was received from
  \<^verbatim>\<open>fc\<close>, the closure in flight returned a value, a value was received from
  \<^verbatim>\<open>ec\<close> by client \<open>j\<close>.
\<close>

datatype 's event = Accept nat "'s closure" | Result "error option" | Deliver nat "error option"

record 's session =
  clients :: "'s client list"
  worker :: "'s wpc"
  shared :: 's
  history :: "'s event list"

text \<open>
  A communication on an unbuffered channel is a rendezvous of one sender blocked in the
  send with one receiver blocked in the receive; the scheduler chooses which. The
  three kinds of step: client \<open>i\<close>'s send on \<^verbatim>\<open>fc\<close> meets the executor's
  \<^verbatim>\<open>range\<close>; the call \<^verbatim>\<open>f()\<close> returns; the executor's send on \<^verbatim>\<open>ec\<close> meets
  client \<open>j\<close>'s receive. A step that is not enabled is \<^term>\<open>None\<close>.
\<close>

datatype action = FcRendezvous nat | CallReturns | EcRendezvous nat

fun step :: "action \<Rightarrow> 's session \<Rightarrow> 's session option" where
  "step (FcRendezvous i) \<sigma> =
     (case worker \<sigma> of
        RangeFc \<Rightarrow>
          if i < length (clients \<sigma>) \<and> cpc (clients \<sigma> ! i) = SendFc then
            (case todo (clients \<sigma> ! i) of
               [] \<Rightarrow> None
             | f # fs \<Rightarrow>
                 Some (\<sigma>\<lparr>clients := (clients \<sigma>)[i := (clients \<sigma> ! i)\<lparr>cpc := RecvEc, todo := fs\<rparr>],
                          worker := Calling f,
                          history := history \<sigma> @ [Accept i f]\<rparr>))
          else None
      | _ \<Rightarrow> None)"
| "step CallReturns \<sigma> =
     (case worker \<sigma> of
        Calling f \<Rightarrow>
          (case f (shared \<sigma>) of
             (r, s') \<Rightarrow> Some (\<sigma>\<lparr>worker := SendEc r, shared := s', history := history \<sigma> @ [Result r]\<rparr>))
      | _ \<Rightarrow> None)"
| "step (EcRendezvous j) \<sigma> =
     (case worker \<sigma> of
        SendEc r \<Rightarrow>
          if j < length (clients \<sigma>) \<and> cpc (clients \<sigma> ! j) = RecvEc then
            Some (\<sigma>\<lparr>clients := (clients \<sigma>)[j := (clients \<sigma> ! j)\<lparr>cpc := SendFc,
                                                                got := got (clients \<sigma> ! j) @ [r]\<rparr>],
                     worker := RangeFc,
                     history := history \<sigma> @ [Deliver j r]\<rparr>)
          else None
      | _ \<Rightarrow> None)"

fun run :: "action list \<Rightarrow> 's session \<Rightarrow> 's session option" where
  "run [] \<sigma> = Some \<sigma>"
| "run (a # as) \<sigma> = (case step a \<sigma> of None \<Rightarrow> None | Some \<sigma>' \<Rightarrow> run as \<sigma>')"

definition session0 :: "'s closure list list \<Rightarrow> 's \<Rightarrow> 's session" where
  "session0 progs s =
     \<lparr>clients = map (\<lambda>p. \<lparr>cpc = SendFc, todo = p, got = []\<rparr>) progs,
      worker = RangeFc, shared = s, history = []\<rparr>"

text \<open>
  A history made of rounds: a closure is accepted from client \<open>i\<close>, it runs on the
  state the round before left and returns \<open>r\<close>, and \<open>r\<close> is delivered to client
  \<open>i\<close>; only then is the next closure accepted. The last round may be unfinished.
\<close>

fun rounds :: "'s \<Rightarrow> 's event list \<Rightarrow> bool" where
  "rounds s [] = True"
| "rounds s [Accept i f] = True"
| "rounds s [Accept i f, Result r] = (r = fst (f s))"
| "rounds s (Accept i f # Result r # Deliver j r' # es) =
     (r = fst (f s) \<and> j = i \<and> r' = r \<and> rounds (snd (f s)) es)"
| "rounds s es = False"

text \<open>The closures accepted from client \<open>i\<close> and the values delivered to it, in order.\<close>

fun accepted :: "nat \<Rightarrow> 's event list \<Rightarrow> 's closure list" where
  "accepted i [] = []"
| "accepted i (Accept j f # es) = (if j = i then f # accepted i es else accepted i es)"
| "accepted i (e # es) = accepted i es"

fun delivered :: "nat \<Rightarrow> 's event list \<Rightarrow> error option list" where
  "delivered i [] = []"
| "delivered i (Deliver j r # es) = (if j = i then r # delivered i es else delivered i es)"
| "delivered i (e # es) = delivered i es"

text \<open>
  The number of closures in flight after a history: one more at each call the executor
  enters, one less at each return.
\<close>

fun in_flight :: "'s event list \<Rightarrow> int" where
  "in_flight [] = 0"
| "in_flight (Accept i f # es) = in_flight es + 1"
| "in_flight (Result r # es) = in_flight es - 1"
| "in_flight (Deliver j r # es) = in_flight es"

text \<open>
  A monitor that reads a history from the left and keeps the state of the closures,
  the executor's place and the client being served; it stops at the first event that is
  out of turn.
\<close>

fun track :: "'s \<times> 's wpc \<times> nat \<Rightarrow> 's event list \<Rightarrow> ('s \<times> 's wpc \<times> nat) option" where
  "track m [] = Some m"
| "track (s, RangeFc, k) (Accept i f # es) = track (s, Calling f, i) es"
| "track (s, Calling f, k) (Result r # es) =
     (if r = fst (f s) then track (snd (f s), SendEc r, k) es else None)"
| "track (s, SendEc r, k) (Deliver j r' # es) =
     (if j = k \<and> r' = r then track (s, RangeFc, k) es else None)"
| "track m es = None"

text \<open>
  The state the closures have reached after a history, when each accepted closure runs
  in the order of acceptance, and the values that the closures accepted from client
  \<open>i\<close> return in such a run.
\<close>

fun after :: "'s \<Rightarrow> 's event list \<Rightarrow> 's" where
  "after s [] = s"
| "after s (Accept j f # es) = after (snd (f s)) es"
| "after s (e # es) = after s es"

fun answers :: "nat \<Rightarrow> 's \<Rightarrow> 's event list \<Rightarrow> error option list" where
  "answers i s [] = []"
| "answers i s (Accept j f # es) =
     (if j = i then fst (f s) # answers i (snd (f s)) es else answers i (snd (f s)) es)"
| "answers i s (e # es) = answers i s es"

text \<open>What holds of every state a session reaches; \<open>k\<close> is the client being served.\<close>

definition session_inv :: "'s closure list list \<Rightarrow> 's \<Rightarrow> nat \<Rightarrow> 's session \<Rightarrow> bool" where
  "session_inv progs s k \<sigma> \<longleftrightarrow>
     length (clients \<sigma>) = length progs
   \<and> track (s, RangeFc, 0) (history \<sigma>) = Some (shared \<sigma>, worker \<sigma>, k)
   \<and> after s (history \<sigma>) = (case worker \<sigma> of Calling f \<Rightarrow> snd (f (shared \<sigma>)) | _ \<Rightarrow> shared \<sigma>)
   \<and> (case worker \<sigma> of
         RangeFc \<Rightarrow> (\<forall>j<length progs. cpc (clients \<sigma> ! j) = SendFc)
       | Calling f \<Rightarrow>
           k < length progs \<and> (\<forall>j<length progs. cpc (clients \<sigma> ! j) = RecvEc \<longleftrightarrow> j = k)
           \<and> answers k s (history \<sigma>) \<noteq> [] \<and> last (answers k s (history \<sigma>)) = fst (f (shared \<sigma>))
       | SendEc r \<Rightarrow>
           k < length progs \<and> (\<forall>j<length progs. cpc (clients \<sigma> ! j) = RecvEc \<longleftrightarrow> j = k)
           \<and> answers k s (history \<sigma>) \<noteq> [] \<and> last (answers k s (history \<sigma>)) = r)
   \<and> (\<forall>i<length progs.
         got (clients \<sigma> ! i) =
           (if cpc (clients \<sigma> ! i) = RecvEc then butlast (answers i s (history \<sigma>))
            else answers i s (history \<sigma>))
         \<and> got (clients \<sigma> ! i) = delivered i (history \<sigma>)
         \<and> accepted i (history \<sigma>) @ todo (clients \<sigma> ! i) = progs ! i)"

subsection \<open>A kernel for the examples\<close>

text \<open>
  A small kernel whose state counts the calls made. No process has pid 0
  (\<^verbatim>\<open>ESRCH\<close> is 3, \<^verbatim>\<open>ECHILD\<close> is 10, \<^verbatim>\<open>ENOENT\<close> is 2); a transfer to or from
  memory stops after three bytes; a wait reports the tracee stopped by a trap.
\<close>

definition toy_OS :: "nat OS" where
  "toy_OS =
     \<lparr>sys_StartProcess = (\<lambda>name argv attr k.
        if name = [] then ((None, Some (PathError ''fork/exec'' name 2)), Suc k)
        else ((Some \<lparr>Pid = 100 + int k\<rparr>, None), Suc k)),
      sys_PtraceCont = (\<lambda>pid signal k. (if pid = 0 then Some (Errno 3) else None, Suc k)),
      sys_PtraceGetRegs = (\<lambda>pid regs k.
        if pid = 0 then ((regs, Some (Errno 3)), Suc k) else ((map (\<lambda>r. r + 1) regs, None), Suc k)),
      sys_PtracePeekText = (\<lambda>pid addr len k.
        if pid = 0 then (([], 0, Some (Errno 3)), Suc k)
        else ((replicate (min len 3) 0xCC, int (min len 3), None), Suc k)),
      sys_PtracePokeText = (\<lambda>pid addr data k.
        if pid = 0 then ((0, Some (Errno 3)), Suc k) else ((int (min (length data) 3), None), Suc k)),
      sys_PtraceSetOptions = (\<lambda>pid options k. (if pid = 0 then Some (Errno 3) else None, Suc k)),
      sys_PtraceSetRegs = (\<lambda>pid regs k. (if pid = 0 then Some (Errno 3) else None, Suc k)),
      sys_PtraceSingleStep = (\<lambda>pid k. (if pid = 0 then Some (Errno 3) else None, Suc k)),
      sys_Wait4 = (\<lambda>pid status options k.
        if pid = 0 then ((- 1, status, Some (Errno 10)), Suc k) else ((pid, 0x57F, None), Suc k))\<rparr>"

definition world0 :: "nat world" where
  "world0 = \<lparr>kernel = 0, calls = []\<rparr>"

text \<open>Two closures on a counter: one increments it, one fails with its value.\<close>

definition bump :: "nat closure" where
  "bump = (\<lambda>s. (None, Suc s))"

definition fail_with :: "nat closure" where
  "fail_with = (\<lambda>s. (Some (Errno s), s))"

text \<open>
  A schedule of two clients, the second served first, stopped while the first client's
  closure has returned and its value waits to be received; and the state it leads to.
\<close>

definition example_schedule :: "action list" where
  "example_schedule = [FcRendezvous 1, CallReturns, EcRendezvous 1, FcRendezvous 0, CallReturns]"

definition example_session :: "nat session" where
  "example_session =
     \<lparr>clients = [\<lparr>cpc = RecvEc, todo = [], got = []\<rparr>,
                 \<lparr>cpc = SendFc, todo = [], got = [Some (Errno 0)]\<rparr>],
      worker = SendEc None, shared = 1,
      history = [Accept 1 fail_with, Result (Some (Errno 0)), Deliver 1 (Some (Errno 0)),
                 Accept 0 bump, Result None]\<rparr>"

section \<open>Properties\<close>

subsection \<open>The decimal rendering determines the number\<close>

lemma digit_mem: "k < 10 \<Longrightarrow> ''0123456789'' ! k \<in> set ''0123456789''"
  by (rule nth_mem) simp

lemma digit_inj:
  assumes "a < 10" "b < 10" "''0123456789'' ! a = ''0123456789'' ! b"
  shows "a = b"
proof -
  have "distinct ''0123456789''" by simp
  moreover have "a < length ''0123456789''" "b < length ''0123456789''" using assms by simp_all
  ultimately show ?thesis using assms(3) by (simp only: nth_eq_iff_index_eq)
qed

lemma decimal_small: "n < 10 \<Longrightarrow> decimal n = [''0123456789'' ! n]"
  by (subst decimal.simps) simp

lemma decimal_big: "\<not> n < 10 \<Longrightarrow> decimal n = decimal (n div 10) @ [''0123456789'' ! (n mod 10)]"
  by (subst decimal.simps) simp

lemma decimal_nonempty: "decimal n \<noteq> []"
  by (cases "n < 10") (simp_all add: decimal_small decimal_big)

lemma decimal_digits: "set (decimal n) \<subseteq> set ''0123456789''"
proof (induction n rule: decimal.induct)
  case (1 n)
  show ?case
  proof (cases "n < 10")
    case True
    then show ?thesis using digit_mem [of n] by (simp only: decimal_small) simp
  next
    case False
    have "''0123456789'' ! (n mod 10) \<in> set ''0123456789''" by (rule digit_mem) simp
    moreover have "set (decimal (n div 10)) \<subseteq> set ''0123456789''" by (rule 1 [OF False])
    ultimately show ?thesis by (simp only: decimal_big [OF False] set_append) simp
  qed
qed

lemma decimal_inj: "decimal n = decimal m \<Longrightarrow> n = m"
proof (induction n arbitrary: m rule: decimal.induct)
  case (1 n)
  note e = \<open>decimal n = decimal m\<close>
  show ?case
  proof (cases "n < 10")
    case n: True
    show ?thesis
    proof (cases "m < 10")
      case True
      from e have "''0123456789'' ! n = ''0123456789'' ! m"
        by (simp only: decimal_small [OF n] decimal_small [OF True] list.inject)
      then show ?thesis by (rule digit_inj [OF n True])
    next
      case False
      from e have "[''0123456789'' ! n] = decimal (m div 10) @ [''0123456789'' ! (m mod 10)]"
        by (simp only: decimal_small [OF n] decimal_big [OF False])
      then have "decimal (m div 10) = []" by simp
      then show ?thesis by (simp only: decimal_nonempty)
    qed
  next
    case n: False
    show ?thesis
    proof (cases "m < 10")
      case True
      from e have "decimal (n div 10) @ [''0123456789'' ! (n mod 10)] = [''0123456789'' ! m]"
        by (simp only: decimal_small [OF True] decimal_big [OF n])
      then have "decimal (n div 10) = []" by simp
      then show ?thesis by (simp only: decimal_nonempty)
    next
      case False
      from e have "decimal (n div 10) @ [''0123456789'' ! (n mod 10)]
                 = decimal (m div 10) @ [''0123456789'' ! (m mod 10)]"
        by (simp only: decimal_big [OF False] decimal_big [OF n])
      then have eq: "decimal (n div 10) = decimal (m div 10)"
        and d: "''0123456789'' ! (n mod 10) = ''0123456789'' ! (m mod 10)"
        by simp_all
      from 1(1) [OF n eq] have q: "n div 10 = m div 10" .
      have r: "n mod 10 = m mod 10" by (rule digit_inj [OF _ _ d]) simp_all
      from q r have "n div 10 * 10 + n mod 10 = m div 10 * 10 + m mod 10" by (simp only:)
      then show ?thesis by (simp only: div_mult_mod_eq)
    qed
  qed
qed

lemma decimal_no_minus: "CHR ''-'' \<notin> set (decimal n)"
proof
  assume "CHR ''-'' \<in> set (decimal n)"
  with decimal_digits [of n] have "CHR ''-'' \<in> set ''0123456789''" by (rule subsetD)
  then show False by simp
qed

lemma decimal_no_space: "CHR '' '' \<notin> set (decimal n)"
proof
  assume "CHR '' '' \<in> set (decimal n)"
  with decimal_digits [of n] have "CHR '' '' \<in> set ''0123456789''" by (rule subsetD)
  then show False by simp
qed

lemma fmt_d_no_space: "CHR '' '' \<notin> set (fmt_d i)"
  by (simp add: fmt_d_def decimal_no_space)

lemma fmt_d_inj: "fmt_d i = fmt_d j \<Longrightarrow> i = j"
proof -
  assume e: "fmt_d i = fmt_d j"
  have neg: "CHR ''-'' # decimal a \<noteq> decimal b" for a b
  proof
    assume "CHR ''-'' # decimal a = decimal b"
    then have "CHR ''-'' \<in> set (decimal b)" by (metis list.set_intros(1))
    with decimal_no_minus [of b] show False by simp
  qed
  show ?thesis
  proof (cases "i < 0"; cases "j < 0")
    assume "i < 0" "j < 0"
    with e have "nat (- i) = nat (- j)" by (simp add: fmt_d_def decimal_inj)
    with \<open>i < 0\<close> \<open>j < 0\<close> show ?thesis by simp
  next
    assume "i < 0" "\<not> j < 0"
    with e neg show ?thesis by (simp add: fmt_d_def)
  next
    assume "\<not> i < 0" "j < 0"
    with e neg [of "nat (- j)" "nat i"] show ?thesis by (simp add: fmt_d_def)
  next
    assume "\<not> i < 0" "\<not> j < 0"
    with e have "nat i = nat j" by (simp add: fmt_d_def decimal_inj)
    with \<open>\<not> i < 0\<close> \<open>\<not> j < 0\<close> show ?thesis by simp
  qed
qed

lemma split_at_char:
  assumes "c \<notin> set xs" "c \<notin> set ys" "xs @ c # r = ys @ c # r'"
  shows "xs = ys \<and> r = r'"
proof -
  have t: "takeWhile (\<lambda>x. x \<noteq> c) (zs @ c # q) = zs" if "c \<notin> set zs" for zs q
  proof -
    have "takeWhile (\<lambda>x. x \<noteq> c) (zs @ c # q) = zs @ takeWhile (\<lambda>x. x \<noteq> c) (c # q)"
      using that by (intro takeWhile_append2) auto
    then show ?thesis by simp
  qed
  have "xs = takeWhile (\<lambda>x. x \<noteq> c) (xs @ c # r)" using t [OF assms(1)] by simp
  also have "\<dots> = takeWhile (\<lambda>x. x \<noteq> c) (ys @ c # r')" by (simp only: assms(3))
  also have "\<dots> = ys" using t [OF assms(2)] by simp
  finally have "xs = ys" .
  with assms(3) show ?thesis by simp
qed

lemma split_at_space:
  assumes "fmt_d n @ CHR '' '' # r = fmt_d n' @ CHR '' '' # r'"
  shows "n = n' \<and> r = r'"
proof -
  from assms have "fmt_d n = fmt_d n' \<and> r = r'"
    by (rule split_at_char [OF fmt_d_no_space fmt_d_no_space])
  then show ?thesis using fmt_d_inj by blast
qed

text \<open>
  The message of a partial transfer determines both counts: two messages with the same
  prefix are equal only when the count transferred and the count wanted are.
\<close>

lemma counts_of_message:
  assumes "pre @ fmt_d n @ '' bytes, want '' @ fmt_d m = pre @ fmt_d n' @ '' bytes, want '' @ fmt_d m'"
  shows "n = n' \<and> m = m'"
proof -
  from assms have "fmt_d n @ '' bytes, want '' @ fmt_d m = fmt_d n' @ '' bytes, want '' @ fmt_d m'"
    by (simp only: same_append_eq)
  then have "fmt_d n @ CHR '' '' # (''bytes, want '' @ fmt_d m)
           = fmt_d n' @ CHR '' '' # (''bytes, want '' @ fmt_d m')"
    by (simp only: append_Cons append_Nil)
  then have "n = n'" and "''bytes, want '' @ fmt_d m = ''bytes, want '' @ fmt_d m'"
    by (simp_all only: split_at_space)
  then have "fmt_d m = fmt_d m'" by (simp only: same_append_eq)
  with \<open>n = n'\<close> show ?thesis using fmt_d_inj by blast
qed

subsection \<open>The operations\<close>

lemma length_copy: "length (copy dst src) = length dst"
  by (simp add: copy_def)

lemma roundtrip_eq: "roundtrip f s = f s"
  by (simp add: roundtrip_def serve_def start_def split: prod.splits)

lemma invoke_eq:
  "invoke c prim w = (fst (prim (kernel w)), \<lparr>kernel = snd (prim (kernel w)), calls = calls w @ [c]\<rparr>)"
  by (simp add: invoke_def split: prod.splits)

text \<open>
  C5. \<^verbatim>\<open>ptracePeek\<close> asks for \<open>N = length out\<close> bytes. When the primitive reports
  no error and a count \<open>n < N\<close>, the call returns the error whose text is
  "ptracePeek: peeked n bytes, want N", both counts in decimal. The call returns
  \<^verbatim>\<open>nil\<close> only when the primitive reported no error and the count \<open>N\<close>, so never
  with a short buffer; and it does return \<^verbatim>\<open>nil\<close> then.
\<close>

theorem ptracePeek_partial_transfer:
  assumes "sys_PtracePeekText os pid addr (length out) (kernel w) = ((bs, n, e), k')"
  shows "(e = None \<and> n < int (length out) \<longrightarrow>
            snd (fst (ptracePeek os pid addr out w)) =
              Some (ErrorString (''ptracePeek: peeked '' @ fmt_d n @ '' bytes, want ''
                                  @ fmt_d (int (length out)))))
       \<and> (snd (fst (ptracePeek os pid addr out w)) = None \<longrightarrow> e = None \<and> n = int (length out))
       \<and> (e = None \<and> n = int (length out) \<longrightarrow> snd (fst (ptracePeek os pid addr out w)) = None)"
  using assms
  by (simp add: ptracePeek_def roundtrip_eq syscall_PtracePeekText_def invoke_def length_copy)

theorem ptracePeek_partial_transfer_witness:
  "snd (fst (ptracePeek toy_OS 1 0 (replicate 8 0) world0)) =
     Some (ErrorString ''ptracePeek: peeked 3 bytes, want 8'')
   \<and> snd (fst (ptracePeek toy_OS 1 0 (replicate 3 0) world0)) = None"
proof -
  have a: "sys_PtracePeekText toy_OS 1 0 (length (replicate 8 (0::byte))) (kernel world0)
             = ((replicate 3 0xCC, 3, None), 1)"
    by (simp add: toy_OS_def world0_def)
  have b: "sys_PtracePeekText toy_OS 1 0 (length (replicate 3 (0::byte))) (kernel world0)
             = ((replicate 3 0xCC, 3, None), 1)"
    by (simp add: toy_OS_def world0_def)
  have d3: "fmt_d 3 = ''3''" by code_simp
  have d8: "fmt_d 8 = ''8''" by code_simp
  from ptracePeek_partial_transfer [OF a]
  have "snd (fst (ptracePeek toy_OS 1 0 (replicate 8 0) world0)) =
          Some (ErrorString (''ptracePeek: peeked '' @ fmt_d 3 @ '' bytes, want '' @ fmt_d 8))"
    by simp
  then have short: "snd (fst (ptracePeek toy_OS 1 0 (replicate 8 0) world0)) =
          Some (ErrorString ''ptracePeek: peeked 3 bytes, want 8'')"
    by (simp only: d3 d8 append_Cons append_Nil)
  from ptracePeek_partial_transfer [OF b]
  have full: "snd (fst (ptracePeek toy_OS 1 0 (replicate 3 0) world0)) = None"
    by simp
  from short full show ?thesis by (rule conjI)
qed

text \<open>
  C6. \<^verbatim>\<open>ptracePoke\<close> writes a buffer of length \<open>N\<close> under the same policy: no
  error and a count \<open>n < N\<close> give the error "ptracePoke: poked n bytes, want N";
  \<^verbatim>\<open>nil\<close> is returned exactly when the primitive reported no error and the count
  \<open>N\<close>.
\<close>

theorem ptracePoke_partial_transfer:
  assumes "sys_PtracePokeText os pid addr data (kernel w) = ((n, e), k')"
  shows "(e = None \<and> n < int (length data) \<longrightarrow>
            fst (ptracePoke os pid addr data w) =
              Some (ErrorString (''ptracePoke: poked '' @ fmt_d n @ '' bytes, want ''
                                  @ fmt_d (int (length data)))))
       \<and> (fst (ptracePoke os pid addr data w) = None \<longrightarrow> e = None \<and> n = int (length data))
       \<and> (e = None \<and> n = int (length data) \<longrightarrow> fst (ptracePoke os pid addr data w) = None)"
  using assms
  by (simp add: ptracePoke_def roundtrip_eq syscall_PtracePokeText_def invoke_def)

theorem ptracePoke_partial_transfer_witness:
  "fst (ptracePoke toy_OS 1 0 [0xDE, 0xAD, 0xBE, 0xEF] world0) =
     Some (ErrorString ''ptracePoke: poked 3 bytes, want 4'')
   \<and> fst (ptracePoke toy_OS 1 0 [0xDE, 0xAD, 0xBE] world0) = None"
proof -
  have a: "sys_PtracePokeText toy_OS 1 0 [0xDE, 0xAD, 0xBE, 0xEF] (kernel world0) = ((3, None), 1)"
    by (simp add: toy_OS_def world0_def)
  have b: "sys_PtracePokeText toy_OS 1 0 [0xDE, 0xAD, 0xBE] (kernel world0) = ((3, None), 1)"
    by (simp add: toy_OS_def world0_def)
  have d3: "fmt_d 3 = ''3''" by code_simp
  have d4: "fmt_d 4 = ''4''" by code_simp
  from ptracePoke_partial_transfer [OF a]
  have "fst (ptracePoke toy_OS 1 0 [0xDE, 0xAD, 0xBE, 0xEF] world0) =
          Some (ErrorString (''ptracePoke: poked '' @ fmt_d 3 @ '' bytes, want '' @ fmt_d 4))"
    by simp
  then have short: "fst (ptracePoke toy_OS 1 0 [0xDE, 0xAD, 0xBE, 0xEF] world0) =
          Some (ErrorString ''ptracePoke: poked 3 bytes, want 4'')"
    by (simp only: d3 d4 append_Cons append_Nil)
  from ptracePoke_partial_transfer [OF b]
  have full: "fst (ptracePoke toy_OS 1 0 [0xDE, 0xAD, 0xBE] world0) = None"
    by simp
  from short full show ?thesis by (rule conjI)
qed

text \<open>
  C10. When the peek or poke primitive reports an error, that error is what the call
  returns, whatever count came with it: the comparison of the count with the length is
  not reached, and the count is not in the result.
\<close>

theorem peek_poke_os_error:
  "(sys_PtracePeekText os pid addr (length out) (kernel w) = ((bs, n, Some e), k') \<longrightarrow>
      snd (fst (ptracePeek os pid addr out w)) = Some e)
   \<and> (sys_PtracePokeText os pid addr data (kernel w) = ((n, Some e), k') \<longrightarrow>
      fst (ptracePoke os pid addr data w) = Some e)"
  by (simp add: ptracePeek_def ptracePoke_def roundtrip_eq syscall_PtracePeekText_def
      syscall_PtracePokeText_def invoke_def length_copy)

theorem peek_poke_os_error_witness:
  "snd (fst (ptracePeek toy_OS 0 0 (replicate 8 0) world0)) = Some (Errno 3)
   \<and> fst (ptracePoke toy_OS 0 0 [0xDE, 0xAD, 0xBE, 0xEF] world0) = Some (Errno 3)"
proof -
  have a: "sys_PtracePeekText toy_OS 0 0 (length (replicate 8 (0::byte))) (kernel world0)
             = (([], 0, Some (Errno 3)), 1)"
    by (simp add: toy_OS_def world0_def)
  have b: "sys_PtracePokeText toy_OS 0 0 [0xDE, 0xAD, 0xBE, 0xEF] (kernel world0)
             = ((0, Some (Errno 3)), 1)"
    by (simp add: toy_OS_def world0_def)
  from peek_poke_os_error [of toy_OS 0 0 "replicate 8 0" world0 "[]" 0 "Errno 3" 1
      "[0xDE, 0xAD, 0xBE, 0xEF]"] a b
  show ?thesis by simp
qed

text \<open>
  C7. Each of \<^verbatim>\<open>startProcess\<close>, \<^verbatim>\<open>ptraceCont\<close>, \<^verbatim>\<open>ptraceGetRegs\<close>,
  \<^verbatim>\<open>ptraceSetOptions\<close>, \<^verbatim>\<open>ptraceSetRegs\<close> and \<^verbatim>\<open>ptraceSingleStep\<close> makes
  one call of its primitive, with the caller's arguments: the log grows by that one
  entry and the kernel is in the state one call leaves. What the call returns is what
  the primitive returned, the error unchanged; \<^verbatim>\<open>startProcess\<close> returns the process
  handle with it.
\<close>

theorem single_primitive_operations:
  "startProcess os name argv attr w =
     (fst (sys_StartProcess os name argv attr (kernel w)),
      \<lparr>kernel = snd (sys_StartProcess os name argv attr (kernel w)),
       calls = calls w @ [Call_StartProcess name argv attr]\<rparr>)
   \<and> ptraceCont os pid signal w =
     (fst (sys_PtraceCont os pid signal (kernel w)),
      \<lparr>kernel = snd (sys_PtraceCont os pid signal (kernel w)),
       calls = calls w @ [Call_PtraceCont pid signal]\<rparr>)
   \<and> ptraceGetRegs os pid regsout w =
     (fst (sys_PtraceGetRegs os pid regsout (kernel w)),
      \<lparr>kernel = snd (sys_PtraceGetRegs os pid regsout (kernel w)),
       calls = calls w @ [Call_PtraceGetRegs pid]\<rparr>)
   \<and> ptraceSetOptions os pid options w =
     (fst (sys_PtraceSetOptions os pid options (kernel w)),
      \<lparr>kernel = snd (sys_PtraceSetOptions os pid options (kernel w)),
       calls = calls w @ [Call_PtraceSetOptions pid options]\<rparr>)
   \<and> ptraceSetRegs os pid regs w =
     (fst (sys_PtraceSetRegs os pid regs (kernel w)),
      \<lparr>kernel = snd (sys_PtraceSetRegs os pid regs (kernel w)),
       calls = calls w @ [Call_PtraceSetRegs pid regs]\<rparr>)
   \<and> ptraceSingleStep os pid w =
     (fst (sys_PtraceSingleStep os pid (kernel w)),
      \<lparr>kernel = snd (sys_PtraceSingleStep os pid (kernel w)),
       calls = calls w @ [Call_PtraceSingleStep pid]\<rparr>)"
  by (simp add: startProcess_def ptraceCont_def ptraceGetRegs_def ptraceSetOptions_def
      ptraceSetRegs_def ptraceSingleStep_def roundtrip_eq invoke_eq
      os_StartProcess_def syscall_PtraceCont_def syscall_PtraceGetRegs_def
      syscall_PtraceSetOptions_def syscall_PtraceSetRegs_def syscall_PtraceSingleStep_def
      split: prod.splits)

theorem single_primitive_operations_witness:
  "startProcess toy_OS ''/bin/true'' [''true''] \<lparr>Dir = '''', Env = [], Ptrace = True\<rparr> world0 =
     ((Some \<lparr>Pid = 100\<rparr>, None),
      \<lparr>kernel = 1,
       calls = [Call_StartProcess ''/bin/true'' [''true''] \<lparr>Dir = '''', Env = [], Ptrace = True\<rparr>]\<rparr>)
   \<and> ptraceCont toy_OS 0 0 world0 = (Some (Errno 3), \<lparr>kernel = 1, calls = [Call_PtraceCont 0 0]\<rparr>)
   \<and> ptraceGetRegs toy_OS 7 [1, 2] world0 =
       (([2, 3], None), \<lparr>kernel = 1, calls = [Call_PtraceGetRegs 7]\<rparr>)
   \<and> ptraceSetOptions toy_OS 7 1 world0 = (None, \<lparr>kernel = 1, calls = [Call_PtraceSetOptions 7 1]\<rparr>)
   \<and> ptraceSetRegs toy_OS 0 [1, 2] world0 =
       (Some (Errno 3), \<lparr>kernel = 1, calls = [Call_PtraceSetRegs 0 [1, 2]]\<rparr>)
   \<and> ptraceSingleStep toy_OS 7 world0 = (None, \<lparr>kernel = 1, calls = [Call_PtraceSingleStep 7]\<rparr>)"
  using single_primitive_operations [of toy_OS "''/bin/true''" "[''true'']"
      "\<lparr>Dir = '''', Env = [], Ptrace = True\<rparr>" world0 0 0 "[1, 2]" 1 "[1, 2]"]
    single_primitive_operations [of toy_OS "''/bin/true''" "[''true'']"
      "\<lparr>Dir = '''', Env = [], Ptrace = True\<rparr>" world0 7 0 "[1, 2]" 1 "[1, 2]"]
  by (simp add: toy_OS_def world0_def)

text \<open>
  C8. \<^verbatim>\<open>wait\<close> makes one call of \<^verbatim>\<open>Wait4\<close>, for the caller's pid and with the
  options \<^verbatim>\<open>WALL\<close>, and returns the pid, the status and the error of that call as
  they are. Blocking until the tracee changes state is what the primitive does; the
  call returns when the primitive does.
\<close>

theorem wait_all_threads:
  "wait os pid w =
     (fst (sys_Wait4 os pid 0 WALL (kernel w)),
      \<lparr>kernel = snd (sys_Wait4 os pid 0 WALL (kernel w)), calls = calls w @ [Call_Wait4 pid WALL]\<rparr>)
   \<and> WALL = 0x40000000"
  by (simp add: wait_def roundtrip_eq invoke_eq syscall_Wait4_def WALL_def split: prod.splits)

theorem wait_all_threads_witness:
  "wait toy_OS 7 world0 = ((7, 0x57F, None), \<lparr>kernel = 1, calls = [Call_Wait4 7 0x40000000]\<rparr>)
   \<and> wait toy_OS 0 world0 = ((- 1, 0, Some (Errno 10)), \<lparr>kernel = 1, calls = [Call_Wait4 0 0x40000000]\<rparr>)"
  using wait_all_threads [of toy_OS 7 world0] wait_all_threads [of toy_OS 0 world0]
  by (simp add: toy_OS_def world0_def)

subsection \<open>The executor\<close>

lemma range_loop_Closed: "range_loop Closed x = Some x"
  by (subst range_loop.simps) simp

lemma range_loop_Recv: "range_loop (Recv f fc) x = range_loop fc (serve f x)"
  by (subst range_loop.simps) simp

lemma range_loop_feed_of:
  "range_loop (feed_of fs rest) x = range_loop rest (foldl (\<lambda>x f. serve f x) x fs)"
  by (induction fs arbitrary: x) (simp_all add: range_loop_Recv)

lemma served_list:
  "foldl (\<lambda>x f. serve f x) x fs =
     x\<lparr>sent := sent x @ results fs (store x), store := run_closures fs (store x)\<rparr>"
  by (induction fs arbitrary: x) (simp_all add: serve_def split: prod.splits)

lemma length_results: "length (results fs s) = length fs"
  by (induction fs arbitrary: s) simp_all

lemma results_nth:
  "i < length fs \<Longrightarrow> results fs s ! i = fst ((fs ! i) (run_closures (take i fs) s))"
proof (induction fs arbitrary: i s)
  case Nil
  then show ?case by simp
next
  case (Cons f fs)
  then show ?case by (cases i) simp_all
qed

text \<open>The loop returns only on a channel that is closed after finitely many closures.\<close>

lemma range_loop_closes:
  assumes "range_loop fc x = Some y"
  shows "closes fc"
proof -
  have "(case (fc, x) of (a, b) \<Rightarrow> \<lambda>y. closes a) y"
  proof (rule range_loop.raw_induct [where P = "\<lambda>a b y. closes a" and xa = "(fc, x)" and y = y])
    fix rl :: "'a closure feed \<Rightarrow> 'a executor \<Rightarrow> 'a executor option" and fc x y
    assume IH: "\<And>a b y. rl a b = Some y \<Longrightarrow> closes a"
      and eq: "(case fc of Closed \<Rightarrow> Some x | Recv f fc' \<Rightarrow> rl fc' (serve f x)) = Some y"
    show "closes fc"
    proof (cases fc)
      case Closed
      then show ?thesis by (simp add: closes.intros)
    next
      case (Recv f fc')
      with eq have "rl fc' (serve f x) = Some y" by simp
      then have "closes fc'" by (rule IH)
      with Recv show ?thesis by (simp add: closes.intros)
    qed
  next
    show "(case (fc, x) of (a, b) \<Rightarrow> range_loop a b) = Some y" using assms by simp
  qed
  then show ?thesis by simp
qed

lemma closes_feed_of: "closes fc \<Longrightarrow> \<exists>fs. fc = feed_of fs Closed"
proof (induction rule: closes.induct)
  case closes_Closed
  have "Closed = feed_of [] Closed" by simp
  then show ?case by blast
next
  case (closes_Recv fc f)
  then obtain fs where "fc = feed_of fs Closed" by blast
  then have "Recv f fc = feed_of (f # fs) Closed" by simp
  then show ?case by blast
qed

lemma feed_of_closes: "closes (feed_of fs Closed)"
  by (induction fs) (auto intro: closes.intros)

text \<open>
  C3. \<^verbatim>\<open>ptraceRun\<close> panics at its first statement exactly when one of the two
  channels has a capacity above zero; with two unbuffered channels it does not panic
  and goes on, locked to its thread, into the loop over \<^verbatim>\<open>fc\<close>.
\<close>

theorem ptraceRun_fail_fast:
  "((\<exists>msg. ptraceRun cap_fc cap_ec fc x = Some (Panic msg)) \<longleftrightarrow> 0 < cap_fc \<or> 0 < cap_ec)
   \<and> (cap_fc = 0 \<and> cap_ec = 0 \<longrightarrow>
        ptraceRun cap_fc cap_ec fc x = map_option Return (range_loop fc (LockOSThread x)))"
  by (auto simp: ptraceRun_def)

theorem ptraceRun_fail_fast_witness:
  "ptraceRun 1 0 (Recv bump Closed) (start 0) = Some (Panic ''ptraceRun was given unbuffered channels'')
   \<and> ptraceRun 0 4 (Recv bump Closed) (start 0) = Some (Panic ''ptraceRun was given unbuffered channels'')
   \<and> ptraceRun 0 0 (Recv bump Closed) (start 0) =
       Some (Return \<lparr>lockedOSThread = True, sent = [None], store = 1\<rparr>)"
proof -
  have p1: "ptraceRun 1 0 (Recv bump Closed) (start 0) = Some (Panic ''ptraceRun was given unbuffered channels'')"
    by (simp add: ptraceRun_def)
  have p2: "ptraceRun 0 4 (Recv bump Closed) (start 0) = Some (Panic ''ptraceRun was given unbuffered channels'')"
    by (simp add: ptraceRun_def)
  from ptraceRun_fail_fast [of 0 0 "Recv bump Closed" "start 0"]
  have "ptraceRun 0 0 (Recv bump Closed) (start 0) =
          map_option Return (range_loop (Recv bump Closed) (LockOSThread (start 0)))"
    by simp
  then have p3: "ptraceRun 0 0 (Recv bump Closed) (start 0) =
       Some (Return \<lparr>lockedOSThread = True, sent = [None], store = 1\<rparr>)"
    by (simp add: range_loop_Recv range_loop_Closed serve_def bump_def LockOSThread_def start_def)
  from p1 p2 p3 show ?thesis by simp
qed

text \<open>
  C4. Started on unbuffered channels, the executor that receives the closures
  \<open>fs\<close> has sent, when it turns to the rest of the channel, exactly the list
  \<open>results fs s\<close>: one value for each closure, in the order received, the value at
  position \<open>i\<close> being what closure \<open>i\<close> returned on the state its predecessors left.
  If the channel is closed after \<open>fs\<close>, that list is all that was sent.
\<close>

theorem ptraceRun_one_result_each:
  "ptraceRun 0 0 (feed_of fs rest) (start s) =
     map_option Return
       (range_loop rest \<lparr>lockedOSThread = True, sent = results fs s, store = run_closures fs s\<rparr>)
   \<and> ptraceRun 0 0 (feed_of fs Closed) (start s) =
       Some (Return \<lparr>lockedOSThread = True, sent = results fs s, store = run_closures fs s\<rparr>)
   \<and> length (results fs s) = length fs
   \<and> (\<forall>i<length fs. results fs s ! i = fst ((fs ! i) (run_closures (take i fs) s)))"
  by (simp add: ptraceRun_def range_loop_feed_of served_list LockOSThread_def start_def
      range_loop_Closed length_results results_nth)

theorem ptraceRun_one_result_each_witness:
  "ptraceRun 0 0 (feed_of [bump, fail_with, bump, fail_with] Closed) (start 0) =
     Some (Return \<lparr>lockedOSThread = True,
                   sent = [None, Some (Errno 1), None, Some (Errno 2)], store = 2\<rparr>)"
proof -
  from ptraceRun_one_result_each [of "[bump, fail_with, bump, fail_with]" Closed 0]
  have "ptraceRun 0 0 (feed_of [bump, fail_with, bump, fail_with] Closed) (start 0) =
          Some (Return \<lparr>lockedOSThread = True,
                        sent = results [bump, fail_with, bump, fail_with] 0,
                        store = run_closures [bump, fail_with, bump, fail_with] 0\<rparr>)"
    by (rule conjunct2 [THEN conjunct1])
  then show ?thesis by (simp add: bump_def fail_with_def)
qed

text \<open>
  C9. On unbuffered channels \<^verbatim>\<open>ptraceRun\<close> returns exactly when its request channel
  is closed after finitely many closures; it has then run every closure received before
  the close and sent one value for each.
\<close>

theorem ptraceRun_returns_when_closed:
  "((\<exists>x'. ptraceRun 0 0 fc x = Some (Return x')) \<longleftrightarrow> closes fc)
   \<and> (\<exists>x'. ptraceRun 0 0 (feed_of fs Closed) x = Some (Return x')
            \<and> sent x' = sent x @ results fs (store x)
            \<and> length (sent x') = length (sent x) + length fs)"
proof -
  have a: "closes fc" if "ptraceRun 0 0 fc x = Some (Return x')" for x'
    using that by (auto simp: ptraceRun_def dest: range_loop_closes)
  have b: "\<exists>x'. ptraceRun 0 0 fc x = Some (Return x')" if "closes fc"
  proof -
    from closes_feed_of [OF that] obtain gs where "fc = feed_of gs Closed" by blast
    then show ?thesis
      by (simp add: ptraceRun_def range_loop_feed_of range_loop_Closed)
  qed
  have c: "\<exists>x'. ptraceRun 0 0 (feed_of fs Closed) x = Some (Return x')
            \<and> sent x' = sent x @ results fs (store x)
            \<and> length (sent x') = length (sent x) + length fs"
    by (simp add: ptraceRun_def range_loop_feed_of range_loop_Closed served_list
        LockOSThread_def length_results)
  from a b c show ?thesis by blast
qed

theorem ptraceRun_returns_when_closed_witness:
  "closes (Recv bump (Recv fail_with Closed))
   \<and> (\<exists>x'. ptraceRun 0 0 (Recv bump (Recv fail_with Closed)) (start 0) = Some (Return x')
            \<and> sent x' = [None, Some (Errno 1)])"
proof -
  have c: "closes (Recv bump (Recv fail_with Closed))"
    by (intro closes.intros)
  from ptraceRun_returns_when_closed [of "Recv bump (Recv fail_with Closed)" "start 0"
      "[bump, fail_with]", THEN conjunct2]
  obtain x' where r: "ptraceRun 0 0 (feed_of [bump, fail_with] Closed) (start 0) = Some (Return x')"
    and s: "sent x' = sent (start (0::nat)) @ results [bump, fail_with] (store (start 0))"
    by (elim exE conjE) (rule that)
  from s have "sent x' = [None, Some (Errno 1)]"
    by (simp add: start_def bump_def fail_with_def)
  moreover from r have "ptraceRun 0 0 (Recv bump (Recv fail_with Closed)) (start 0) = Some (Return x')"
    by simp
  ultimately have "\<exists>x'. ptraceRun 0 0 (Recv bump (Recv fail_with Closed)) (start 0) = Some (Return x')
            \<and> sent x' = [None, Some (Errno 1)]"
    by (intro exI [of _ x'] conjI)
  with c show ?thesis by (rule conjI)
qed

subsection \<open>Many callers\<close>

lemma track_append:
  "track m es = Some m' \<Longrightarrow> track m (es @ es') = track m' es'"
  by (induction m es rule: track.induct) (simp_all split: if_splits)

lemma track_rounds: "track (s, RangeFc, k) es = Some m \<Longrightarrow> rounds s es"
  apply (induction s es arbitrary: k m rule: rounds.induct)
  apply (simp_all split: if_splits)
  subgoal for s v by (cases v) simp_all
  subgoal for s v by (cases v) simp_all
  subgoal for s v by (cases v) simp_all
  subgoal for s v by (cases v) simp_all
  subgoal for s v vb by (cases v; cases vb) (simp_all split: if_splits)
  subgoal for s v vb by (cases v; cases vb) (simp_all split: if_splits)
  done

lemma in_flight_append: "in_flight (es @ es') = in_flight es + in_flight es'"
  by (induction es rule: in_flight.induct) simp_all

lemma accepted_append: "accepted i (es @ es') = accepted i es @ accepted i es'"
  by (induction i es rule: accepted.induct) simp_all

lemma delivered_append: "delivered i (es @ es') = delivered i es @ delivered i es'"
  by (induction i es rule: delivered.induct) simp_all

lemma after_append: "after s (es @ es') = after (after s es) es'"
  by (induction s es rule: after.induct) simp_all

lemma answers_append: "answers i s (es @ es') = answers i s es @ answers i (after s es) es'"
  by (induction i s es rule: answers.induct) simp_all

lemma track_in_flight:
  "track (s, w, k) es = Some (s', w', k') \<Longrightarrow>
     in_flight es = (case w' of Calling f \<Rightarrow> 1 | _ \<Rightarrow> 0) - (case w of Calling f \<Rightarrow> 1 | _ \<Rightarrow> 0)"
  by (induction "(s, w, k)" es arbitrary: s w k rule: track.induct) (simp_all split: if_splits)

lemmas history_append =
  after_append answers_append accepted_append delivered_append

lemma inv_session0: "session_inv progs s 0 (session0 progs s)"
  by (simp add: session_inv_def session0_def)

lemma inv_FcRendezvous:
  assumes I: "session_inv progs s k \<sigma>" and S: "step (FcRendezvous i) \<sigma> = Some \<sigma>'"
  shows "session_inv progs s i \<sigma>'"
proof -
  from S obtain f fs where w: "worker \<sigma> = RangeFc" and i: "i < length (clients \<sigma>)"
    and c: "cpc (clients \<sigma> ! i) = SendFc" and t: "todo (clients \<sigma> ! i) = f # fs"
    and \<sigma>': "\<sigma>' = \<sigma>\<lparr>clients := (clients \<sigma>)[i := (clients \<sigma> ! i)\<lparr>cpc := RecvEc, todo := fs\<rparr>],
                      worker := Calling f, history := history \<sigma> @ [Accept i f]\<rparr>"
    by (auto split: wpc.splits if_splits list.splits)
  from I w have n: "length (clients \<sigma>) = length progs"
    and tr: "track (s, RangeFc, 0) (history \<sigma>) = Some (shared \<sigma>, RangeFc, k)"
    and af: "after s (history \<sigma>) = shared \<sigma>"
    and all: "\<forall>j<length progs. cpc (clients \<sigma> ! j) = SendFc"
    by (simp_all add: session_inv_def)
  from I w have per: "\<forall>i<length progs. got (clients \<sigma> ! i) = answers i s (history \<sigma>)
                \<and> got (clients \<sigma> ! i) = delivered i (history \<sigma>)
                \<and> accepted i (history \<sigma>) @ todo (clients \<sigma> ! i) = progs ! i"
    unfolding session_inv_def by auto
  show ?thesis
    unfolding session_inv_def
  proof (intro conjI)
    show "length (clients \<sigma>') = length progs" using n by (simp add: \<sigma>')
    show "track (s, RangeFc, 0) (history \<sigma>') = Some (shared \<sigma>', worker \<sigma>', i)"
      by (simp add: \<sigma>' track_append [OF tr])
    show "after s (history \<sigma>') = (case worker \<sigma>' of Calling f \<Rightarrow> snd (f (shared \<sigma>')) | _ \<Rightarrow> shared \<sigma>')"
      by (simp add: \<sigma>' history_append af)
    show "case worker \<sigma>' of
            RangeFc \<Rightarrow> \<forall>j<length progs. cpc (clients \<sigma>' ! j) = SendFc
          | Calling f \<Rightarrow> i < length progs \<and> (\<forall>j<length progs. (cpc (clients \<sigma>' ! j) = RecvEc) = (j = i))
              \<and> answers i s (history \<sigma>') \<noteq> [] \<and> last (answers i s (history \<sigma>')) = fst (f (shared \<sigma>'))
          | SendEc r \<Rightarrow> i < length progs \<and> (\<forall>j<length progs. (cpc (clients \<sigma>' ! j) = RecvEc) = (j = i))
              \<and> answers i s (history \<sigma>') \<noteq> [] \<and> last (answers i s (history \<sigma>')) = r"
      using i n all by (simp add: \<sigma>' history_append af nth_list_update)
    show "\<forall>j<length progs.
            got (clients \<sigma>' ! j) =
              (if cpc (clients \<sigma>' ! j) = RecvEc then butlast (answers j s (history \<sigma>'))
               else answers j s (history \<sigma>'))
            \<and> got (clients \<sigma>' ! j) = delivered j (history \<sigma>')
            \<and> accepted j (history \<sigma>') @ todo (clients \<sigma>' ! j) = progs ! j"
    proof (intro allI impI)
      fix j assume j: "j < length progs"
      from per j have p: "got (clients \<sigma> ! j) = answers j s (history \<sigma>)"
        "got (clients \<sigma> ! j) = delivered j (history \<sigma>)"
        "accepted j (history \<sigma>) @ todo (clients \<sigma> ! j) = progs ! j" by blast+
      show "got (clients \<sigma>' ! j) =
              (if cpc (clients \<sigma>' ! j) = RecvEc then butlast (answers j s (history \<sigma>'))
               else answers j s (history \<sigma>'))
            \<and> got (clients \<sigma>' ! j) = delivered j (history \<sigma>')
            \<and> accepted j (history \<sigma>') @ todo (clients \<sigma>' ! j) = progs ! j"
      proof (cases "j = i")
        case True
        with p t show ?thesis using i
          by (simp add: \<sigma>' history_append af)
      next
        case False
        from all j have "cpc (clients \<sigma> ! j) = SendFc" by blast
        with p show ?thesis using False i n
          by (simp add: \<sigma>' history_append af)
      qed
    qed
  qed
qed

lemma inv_CallReturns:
  assumes I: "session_inv progs s k \<sigma>" and S: "step CallReturns \<sigma> = Some \<sigma>'"
  shows "session_inv progs s k \<sigma>'"
proof -
  from S obtain f where w: "worker \<sigma> = Calling f"
    and \<sigma>': "\<sigma>' = \<sigma>\<lparr>worker := SendEc (fst (f (shared \<sigma>))), shared := snd (f (shared \<sigma>)),
                      history := history \<sigma> @ [Result (fst (f (shared \<sigma>)))]\<rparr>"
    by (auto split: wpc.splits prod.splits)
  from I w have n: "length (clients \<sigma>) = length progs"
    and tr: "track (s, RangeFc, 0) (history \<sigma>) = Some (shared \<sigma>, Calling f, k)"
    and af: "after s (history \<sigma>) = snd (f (shared \<sigma>))"
    and k: "k < length progs"
    and one: "\<forall>j<length progs. (cpc (clients \<sigma> ! j) = RecvEc) = (j = k)"
    and ans: "answers k s (history \<sigma>) \<noteq> []" "last (answers k s (history \<sigma>)) = fst (f (shared \<sigma>))"
    by (simp_all add: session_inv_def)
  from I have per: "\<forall>i<length progs.
         got (clients \<sigma> ! i) =
           (if cpc (clients \<sigma> ! i) = RecvEc then butlast (answers i s (history \<sigma>))
            else answers i s (history \<sigma>))
         \<and> got (clients \<sigma> ! i) = delivered i (history \<sigma>)
         \<and> accepted i (history \<sigma>) @ todo (clients \<sigma> ! i) = progs ! i"
    unfolding session_inv_def by blast
  show ?thesis
    unfolding session_inv_def
  proof (intro conjI)
    show "length (clients \<sigma>') = length progs" using n by (simp add: \<sigma>')
    show "track (s, RangeFc, 0) (history \<sigma>') = Some (shared \<sigma>', worker \<sigma>', k)"
      by (simp add: \<sigma>' track_append [OF tr])
    show "after s (history \<sigma>') = (case worker \<sigma>' of Calling f \<Rightarrow> snd (f (shared \<sigma>')) | _ \<Rightarrow> shared \<sigma>')"
      by (simp add: \<sigma>' history_append af)
    show "case worker \<sigma>' of
            RangeFc \<Rightarrow> \<forall>j<length progs. cpc (clients \<sigma>' ! j) = SendFc
          | Calling f \<Rightarrow> k < length progs \<and> (\<forall>j<length progs. (cpc (clients \<sigma>' ! j) = RecvEc) = (j = k))
              \<and> answers k s (history \<sigma>') \<noteq> [] \<and> last (answers k s (history \<sigma>')) = fst (f (shared \<sigma>'))
          | SendEc r \<Rightarrow> k < length progs \<and> (\<forall>j<length progs. (cpc (clients \<sigma>' ! j) = RecvEc) = (j = k))
              \<and> answers k s (history \<sigma>') \<noteq> [] \<and> last (answers k s (history \<sigma>')) = r"
      using k one ans by (simp add: \<sigma>' history_append)
    have eqs: "clients \<sigma>' = clients \<sigma>"
      "\<And>j. answers j s (history \<sigma>') = answers j s (history \<sigma>)"
      "\<And>j. delivered j (history \<sigma>') = delivered j (history \<sigma>)"
      "\<And>j. accepted j (history \<sigma>') = accepted j (history \<sigma>)"
      by (simp_all add: \<sigma>' history_append)
    show "\<forall>j<length progs.
            got (clients \<sigma>' ! j) =
              (if cpc (clients \<sigma>' ! j) = RecvEc then butlast (answers j s (history \<sigma>'))
               else answers j s (history \<sigma>'))
            \<and> got (clients \<sigma>' ! j) = delivered j (history \<sigma>')
            \<and> accepted j (history \<sigma>') @ todo (clients \<sigma>' ! j) = progs ! j"
      unfolding eqs by (rule per)
  qed
qed

text \<open>
  The receive that meets the executor's send on \<^verbatim>\<open>ec\<close> can only be the receive of
  the client whose closure was accepted last.
\<close>

lemma inv_EcRendezvous:
  assumes I: "session_inv progs s k \<sigma>" and S: "step (EcRendezvous j) \<sigma> = Some \<sigma>'"
  shows "session_inv progs s k \<sigma>' \<and> j = k"
proof -
  from S obtain r where w: "worker \<sigma> = SendEc r" and j: "j < length (clients \<sigma>)"
    and c: "cpc (clients \<sigma> ! j) = RecvEc"
    and \<sigma>': "\<sigma>' = \<sigma>\<lparr>clients := (clients \<sigma>)[j := (clients \<sigma> ! j)\<lparr>cpc := SendFc,
                                                                got := got (clients \<sigma> ! j) @ [r]\<rparr>],
                      worker := RangeFc, history := history \<sigma> @ [Deliver j r]\<rparr>"
    by (auto split: wpc.splits if_splits)
  from I w have n: "length (clients \<sigma>) = length progs"
    and tr: "track (s, RangeFc, 0) (history \<sigma>) = Some (shared \<sigma>, SendEc r, k)"
    and af: "after s (history \<sigma>) = shared \<sigma>"
    and k: "k < length progs"
    and one: "\<forall>j<length progs. (cpc (clients \<sigma> ! j) = RecvEc) = (j = k)"
    and ans: "answers k s (history \<sigma>) \<noteq> []" "last (answers k s (history \<sigma>)) = r"
    by (simp_all add: session_inv_def)
  from I have per: "\<forall>i<length progs.
         got (clients \<sigma> ! i) =
           (if cpc (clients \<sigma> ! i) = RecvEc then butlast (answers i s (history \<sigma>))
            else answers i s (history \<sigma>))
         \<and> got (clients \<sigma> ! i) = delivered i (history \<sigma>)
         \<and> accepted i (history \<sigma>) @ todo (clients \<sigma> ! i) = progs ! i"
    unfolding session_inv_def by blast
  from one j n c have jk: "j = k" by auto
  have "session_inv progs s k \<sigma>'"
    unfolding session_inv_def
  proof (intro conjI)
    show "length (clients \<sigma>') = length progs" using n by (simp add: \<sigma>')
    show "track (s, RangeFc, 0) (history \<sigma>') = Some (shared \<sigma>', worker \<sigma>', k)"
      by (simp add: \<sigma>' track_append [OF tr] jk)
    show "after s (history \<sigma>') = (case worker \<sigma>' of Calling f \<Rightarrow> snd (f (shared \<sigma>')) | _ \<Rightarrow> shared \<sigma>')"
      by (simp add: \<sigma>' history_append af)
    show "case worker \<sigma>' of
            RangeFc \<Rightarrow> \<forall>j<length progs. cpc (clients \<sigma>' ! j) = SendFc
          | Calling f \<Rightarrow> k < length progs \<and> (\<forall>j<length progs. (cpc (clients \<sigma>' ! j) = RecvEc) = (j = k))
              \<and> answers k s (history \<sigma>') \<noteq> [] \<and> last (answers k s (history \<sigma>')) = fst (f (shared \<sigma>'))
          | SendEc r \<Rightarrow> k < length progs \<and> (\<forall>j<length progs. (cpc (clients \<sigma>' ! j) = RecvEc) = (j = k))
              \<and> answers k s (history \<sigma>') \<noteq> [] \<and> last (answers k s (history \<sigma>')) = r"
    proof -
      have "cpc (clients \<sigma>' ! i) = SendFc" if "i < length progs" for i
      proof (cases "i = k")
        case True
        then show ?thesis using k n by (simp add: \<sigma>' jk)
      next
        case False
        with one that have "cpc (clients \<sigma> ! i) \<noteq> RecvEc" by blast
        then have "cpc (clients \<sigma> ! i) = SendFc" by (cases "cpc (clients \<sigma> ! i)") simp_all
        with False show ?thesis by (simp add: \<sigma>' jk)
      qed
      then show ?thesis by (simp add: \<sigma>')
    qed
    show "\<forall>i<length progs.
            got (clients \<sigma>' ! i) =
              (if cpc (clients \<sigma>' ! i) = RecvEc then butlast (answers i s (history \<sigma>'))
               else answers i s (history \<sigma>'))
            \<and> got (clients \<sigma>' ! i) = delivered i (history \<sigma>')
            \<and> accepted i (history \<sigma>') @ todo (clients \<sigma>' ! i) = progs ! i"
    proof (intro allI impI)
      fix i assume i: "i < length progs"
      from per i have p: "got (clients \<sigma> ! i) =
           (if cpc (clients \<sigma> ! i) = RecvEc then butlast (answers i s (history \<sigma>))
            else answers i s (history \<sigma>))"
          "got (clients \<sigma> ! i) = delivered i (history \<sigma>)"
          "accepted i (history \<sigma>) @ todo (clients \<sigma> ! i) = progs ! i" by blast+
      show "got (clients \<sigma>' ! i) =
              (if cpc (clients \<sigma>' ! i) = RecvEc then butlast (answers i s (history \<sigma>'))
               else answers i s (history \<sigma>'))
            \<and> got (clients \<sigma>' ! i) = delivered i (history \<sigma>')
            \<and> accepted i (history \<sigma>') @ todo (clients \<sigma>' ! i) = progs ! i"
      proof (cases "i = k")
        case True
        from p(1) c have g: "got (clients \<sigma> ! k) = butlast (answers k s (history \<sigma>))"
          by (simp add: True jk [symmetric])
        have "butlast (answers k s (history \<sigma>)) @ [r] = answers k s (history \<sigma>)"
          using ans by (metis append_butlast_last_id)
        with g p(2,3) True show ?thesis using k n
          by (simp add: \<sigma>' jk history_append)
      next
        case False
        with one i have "cpc (clients \<sigma> ! i) \<noteq> RecvEc" by blast
        with p False show ?thesis by (simp add: \<sigma>' jk history_append)
      qed
    qed
  qed
  with jk show ?thesis by simp
qed

lemma inv_step:
  assumes "session_inv progs s k \<sigma>" "step a \<sigma> = Some \<sigma>'"
  shows "\<exists>k'. session_inv progs s k' \<sigma>'"
proof (cases a)
  case (FcRendezvous i)
  with assms(2) have "step (FcRendezvous i) \<sigma> = Some \<sigma>'" by simp
  from inv_FcRendezvous [OF assms(1) this] show ?thesis by (rule exI)
next
  case CallReturns
  with assms(2) have "step CallReturns \<sigma> = Some \<sigma>'" by simp
  from inv_CallReturns [OF assms(1) this] show ?thesis by (rule exI)
next
  case (EcRendezvous j)
  with assms(2) have "step (EcRendezvous j) \<sigma> = Some \<sigma>'" by simp
  from inv_EcRendezvous [OF assms(1) this] have "session_inv progs s k \<sigma>'" by (rule conjunct1)
  then show ?thesis by (rule exI)
qed

lemma inv_run:
  "session_inv progs s k \<sigma> \<Longrightarrow> run sched \<sigma> = Some \<sigma>' \<Longrightarrow> \<exists>k'. session_inv progs s k' \<sigma>'"
proof (induction sched arbitrary: k \<sigma>)
  case Nil
  then show ?case by auto
next
  case (Cons a sched)
  from Cons.prems(2) obtain \<sigma>1 where s1: "step a \<sigma> = Some \<sigma>1" and r: "run sched \<sigma>1 = Some \<sigma>'"
    by (auto split: option.splits)
  from inv_step [OF Cons.prems(1) s1] obtain k1 where "session_inv progs s k1 \<sigma>1" by blast
  from Cons.IH [OF this r] show ?case .
qed

text \<open>
  A call made alone is one round of the session, and what it returns is what
  \<^term>\<open>roundtrip\<close> computes: the operations above are the sessions of one caller.
\<close>

lemma roundtrip_is_one_round:
  "\<exists>\<sigma>. run [FcRendezvous 0, CallReturns, EcRendezvous 0] (session0 [[f]] s) = Some \<sigma>
       \<and> got (clients \<sigma> ! 0) = [fst (roundtrip f s)] \<and> shared \<sigma> = snd (roundtrip f s)"
  by (simp add: session0_def roundtrip_eq split: prod.splits)

text \<open>
  C2. Take any number of clients, each with any list of calls to make, and any
  interleaving of their steps with the executor's. The history of the session is then a
  sequence of rounds: a closure is accepted from a client, it runs on the state the
  closure before it left, and its value is delivered to the same client, before the next
  closure is accepted. So at most one closure is in flight (the count is 0 or 1), the
  closures run in the order in which they were accepted, and the values a client has
  received are the values of its own closures in that order, with none yet for a call
  still waiting.
\<close>

theorem session_serialised:
  assumes "run sched (session0 progs s) = Some \<sigma>"
  shows "rounds s (history \<sigma>)
       \<and> (in_flight (history \<sigma>) = 0 \<or> in_flight (history \<sigma>) = 1)
       \<and> (\<forall>i<length progs.
            got (clients \<sigma> ! i) =
              (if cpc (clients \<sigma> ! i) = RecvEc then butlast (answers i s (history \<sigma>))
               else answers i s (history \<sigma>))
            \<and> got (clients \<sigma> ! i) = delivered i (history \<sigma>)
            \<and> accepted i (history \<sigma>) @ todo (clients \<sigma> ! i) = progs ! i)"
proof -
  from inv_run [OF inv_session0 assms] obtain k where I: "session_inv progs s k \<sigma>" by blast
  then have tr: "track (s, RangeFc, 0) (history \<sigma>) = Some (shared \<sigma>, worker \<sigma>, k)"
    by (simp add: session_inv_def)
  have 1: "rounds s (history \<sigma>)" by (rule track_rounds [OF tr])
  have 2: "in_flight (history \<sigma>) = 0 \<or> in_flight (history \<sigma>) = 1"
    using track_in_flight [OF tr] by (cases "worker \<sigma>") simp_all
  from I have 3: "\<forall>i<length progs.
            got (clients \<sigma> ! i) =
              (if cpc (clients \<sigma> ! i) = RecvEc then butlast (answers i s (history \<sigma>))
               else answers i s (history \<sigma>))
            \<and> got (clients \<sigma> ! i) = delivered i (history \<sigma>)
            \<and> accepted i (history \<sigma>) @ todo (clients \<sigma> ! i) = progs ! i"
    unfolding session_inv_def by blast
  from 1 2 3 show ?thesis by blast
qed

theorem session_serialised_witness:
  "run example_schedule (session0 [[bump], [fail_with]] 0) = Some example_session
   \<and> rounds 0 (history example_session)
   \<and> got (clients example_session ! 0) = butlast (answers 0 0 (history example_session))
   \<and> got (clients example_session ! 1) = answers 1 0 (history example_session)
   \<and> answers 0 0 (history example_session) = [None]
   \<and> answers 1 0 (history example_session) = [Some (Errno 0)]
   \<and> run [FcRendezvous 1, CallReturns, EcRendezvous 0] (session0 [[bump], [fail_with]] (0::nat)) = None"
proof -
  have r: "run example_schedule (session0 [[bump], [fail_with]] 0) = Some example_session"
    by (simp add: example_schedule_def example_session_def session0_def bump_def fail_with_def)
  note t = session_serialised [OF r]
  from t have 1: "rounds 0 (history example_session)" by (rule conjunct1)
  from t have all: "\<forall>i<length [[bump], [fail_with]].
            got (clients example_session ! i) =
              (if cpc (clients example_session ! i) = RecvEc
               then butlast (answers i 0 (history example_session))
               else answers i 0 (history example_session))
            \<and> got (clients example_session ! i) = delivered i (history example_session)
            \<and> accepted i (history example_session) @ todo (clients example_session ! i)
                = [[bump], [fail_with]] ! i"
    by (rule conjunct2 [THEN conjunct2])
  have c: "cpc (clients example_session ! 0) = RecvEc" "cpc (clients example_session ! 1) = SendFc"
    by (simp_all add: example_session_def)
  from all [rule_format, of 0] c
  have 2: "got (clients example_session ! 0) = butlast (answers 0 0 (history example_session))"
    by simp
  from all [rule_format, of 1] c
  have 3: "got (clients example_session ! 1) = answers 1 0 (history example_session)"
    by simp
  have 4: "answers 0 0 (history example_session) = [None]"
    "answers 1 0 (history example_session) = [Some (Errno 0)]"
    by (simp_all add: example_session_def bump_def fail_with_def)
  have 5: "run [FcRendezvous 1, CallReturns, EcRendezvous 0] (session0 [[bump], [fail_with]] (0::nat)) = None"
    by (simp add: session0_def bump_def fail_with_def)
  from r 1 2 3 4 5 show ?thesis by simp
qed

end
